theory Spec2Isabelle
  imports Complex_Main
begin

section \<open>Data model\<close>

text \<open>
  The program is the multi-objective knapsack script \<^verbatim>\<open>src/optops/__init__.py\<close>.
  An individual is a Python \<^verbatim>\<open>set\<close> of item ids. It is modelled by the sequence in
  which the set object iterates over its members (each member once); \<^verbatim>\<open>len\<close> is the
  length of that sequence, \<^verbatim>\<open>tuple(individual)\<close> is the sequence itself. Python floats
  are modelled as reals: rounding of the value sum is not modelled.
\<close>

datatype py_error = KeyError | IndexError | ValueError

type_synonym individual = "nat list"

type_synonym objvec = "real \<times> real"

text \<open>The \<^verbatim>\<open>items\<close> dictionary: item id to (weight, value). Its contents are drawn
  at import time from the seeded generator, so the catalog is a parameter here.\<close>

type_synonym catalog = "nat \<rightharpoonup> (int \<times> real)"

definition IND_INIT_SIZE :: nat where
  "IND_INIT_SIZE = 5"

definition MAX_ITEM :: nat where
  "MAX_ITEM = 50"

definition MAX_WEIGHT :: real where
  "MAX_WEIGHT = 50"

definition NBR_ITEMS :: nat where
  "NBR_ITEMS = 20"

section \<open>Fitness evaluation\<close>

text \<open>The loop of \<^verbatim>\<open>evalKnapsack\<close>: \<^verbatim>\<open>items[item]\<close> raises KeyError on an id
  that is not in the dictionary.\<close>

fun evalKnapsack_loop :: "catalog \<Rightarrow> individual \<Rightarrow> real \<times> real \<Rightarrow> py_error + (real \<times> real)" where
  "evalKnapsack_loop items [] (weight, val) = Inr (weight, val)"
| "evalKnapsack_loop items (item # rest) (weight, val) =
     (case items item of
        None \<Rightarrow> Inl KeyError
      | Some (w, v) \<Rightarrow> evalKnapsack_loop items rest (weight + real_of_int w, val + v))"

definition evalKnapsack :: "catalog \<Rightarrow> individual \<Rightarrow> py_error + objvec" where
  "evalKnapsack items individual =
     (case evalKnapsack_loop items individual (0, 0) of
        Inl e \<Rightarrow> Inl e
      | Inr (weight, val) \<Rightarrow>
          if length individual > MAX_ITEM \<or> weight > MAX_WEIGHT
          then Inr (10000, 0)
          else Inr (weight, val))"

text \<open>The summed catalog weight of an individual, as the specification words it.\<close>

definition summed_weight :: "catalog \<Rightarrow> individual \<Rightarrow> real" where
  "summed_weight items individual =
     sum_list (map (\<lambda>item. case items item of None \<Rightarrow> 0 | Some (w, v) \<Rightarrow> real_of_int w) individual)"

definition summed_value :: "catalog \<Rightarrow> individual \<Rightarrow> real" where
  "summed_value items individual =
     sum_list (map (\<lambda>item. case items item of None \<Rightarrow> 0 | Some (w, v) \<Rightarrow> v) individual)"

section \<open>Dominance\<close>

text \<open>\<^verbatim>\<open>creator.create("Fitness", base.Fitness, weights=(-1.0, 1.0))\<close>: a negative
  weight marks an objective to be minimised, a positive one an objective to be
  maximised.\<close>

datatype direction = Minimize | Maximize

definition Fitness_weights :: "real \<times> real" where
  "Fitness_weights = (-1, 1)"

definition direction_of :: "real \<Rightarrow> direction" where
  "direction_of w = (if w < 0 then Minimize else Maximize)"

definition directions :: "direction \<times> direction" where
  "directions = (direction_of (fst Fitness_weights), direction_of (snd Fitness_weights))"

definition at_least_as_good :: "direction \<Rightarrow> real \<Rightarrow> real \<Rightarrow> bool" where
  "at_least_as_good d a b = (case d of Minimize \<Rightarrow> a \<le> b | Maximize \<Rightarrow> b \<le> a)"

definition strictly_better :: "direction \<Rightarrow> real \<Rightarrow> real \<Rightarrow> bool" where
  "strictly_better d a b = (case d of Minimize \<Rightarrow> a < b | Maximize \<Rightarrow> b < a)"

text \<open>Modelled from the spec: the dominance test of the selection library
  (\<^verbatim>\<open>base.Fitness.dominates\<close>, used by \<^verbatim>\<open>tools.selNSGA2\<close> and
  \<^verbatim>\<open>tools.ParetoFront\<close>) is not part of the source file. Section 4.4: x dominates y
  iff, for every objective, x is at least as good as y under that objective's
  direction, and strictly better in at least one.\<close>

definition dominates :: "objvec \<Rightarrow> objvec \<Rightarrow> bool" where
  "dominates x y =
     ((at_least_as_good (fst directions) (fst x) (fst y) \<and>
       at_least_as_good (snd directions) (snd x) (snd y)) \<and>
      (strictly_better (fst directions) (fst x) (fst y) \<or>
       strictly_better (snd directions) (snd x) (snd y)))"

section \<open>The random generator\<close>

text \<open>The script draws from the process-wide generator of Python's \<^verbatim>\<open>random\<close>
  module. The generator is a parameter: a state type with the seeding function and the
  two primitive draws the script's calls come down to, each returning the drawn value
  and the next state.\<close>

record 'g rng =
  rng_seed :: "int \<Rightarrow> 'g"
  rng_random :: "'g \<Rightarrow> real \<times> 'g"
  rng_randbelow :: "nat \<Rightarrow> 'g \<Rightarrow> nat \<times> 'g"

text \<open>The contract of the library: \<^verbatim>\<open>random()\<close> lies in [0, 1) and a draw below
  a positive bound lies below it.\<close>

definition rng_ok :: "'g rng \<Rightarrow> bool" where
  "rng_ok R = ((\<forall>g. 0 \<le> fst (rng_random R g) \<and> fst (rng_random R g) < 1) \<and>
               (\<forall>n g. 0 < n \<longrightarrow> fst (rng_randbelow R n g) < n))"

text \<open>\<^verbatim>\<open>random.choice(seq)\<close> indexes the sequence with a draw below its length and
  raises IndexError on an empty sequence.\<close>

definition random_choice :: "'g rng \<Rightarrow> 'a list \<Rightarrow> 'g \<Rightarrow> py_error + ('a \<times> 'g)" where
  "random_choice R seq g =
     (if seq = [] then Inl IndexError
      else (let (i, g') = rng_randbelow R (length seq) g
            in if i < length seq then Inr (seq ! i, g') else Inl IndexError))"

text \<open>\<^verbatim>\<open>random.randrange(stop)\<close> raises ValueError on an empty range.\<close>

definition random_randrange :: "'g rng \<Rightarrow> nat \<Rightarrow> 'g \<Rightarrow> py_error + (nat \<times> 'g)" where
  "random_randrange R stop g =
     (if 0 < stop then Inr (rng_randbelow R stop g) else Inl ValueError)"

text \<open>A generator that replays a given list of raw draws (and draws 0 once the list
  is used up); it instantiates the parameter in the concrete evaluations below.\<close>

definition replay_raw :: "nat list \<Rightarrow> nat" where
  "replay_raw g = (case g of [] \<Rightarrow> 0 | x # rest \<Rightarrow> x)"

definition replay_rng :: "nat list rng" where
  "replay_rng = \<lparr> rng_seed = (\<lambda>s. [nat \<bar>s\<bar>]),
                   rng_random = (\<lambda>g. (real (replay_raw g mod 1000) / 1000, tl g)),
                   rng_randbelow = (\<lambda>n g. (replay_raw g mod n, tl g)) \<rparr>"

section \<open>Set objects\<close>

text \<open>The in-place operations of a Python set, on the iteration sequence. Where a new
  member is placed in the iteration order is not observable through the properties
  below, which speak of membership only.\<close>

definition set_add :: "individual \<Rightarrow> nat \<Rightarrow> individual" where
  "set_add xs x = (if x \<in> set xs then xs else xs @ [x])"

definition set_remove :: "individual \<Rightarrow> nat \<Rightarrow> py_error + individual" where
  "set_remove xs x = (if x \<in> set xs then Inr (removeAll x xs) else Inl KeyError)"

definition set_iand :: "individual \<Rightarrow> individual \<Rightarrow> individual" where
  "set_iand xs ys = filter (\<lambda>x. x \<in> set ys) xs"

definition set_ixor :: "individual \<Rightarrow> individual \<Rightarrow> individual" where
  "set_ixor xs ys = filter (\<lambda>x. x \<notin> set ys) xs @ filter (\<lambda>y. y \<notin> set xs) ys"

section \<open>Crossover\<close>

text \<open>\<^verbatim>\<open>cxSet\<close> updates its two arguments in place, so it is modelled over a store of
  set objects: a reference names an object, and the two parameters may name the same
  one. \<^verbatim>\<open>temp = set(ind1)\<close> copies the contents of the first object; the second
  update reads the second object as the first update left it.\<close>

type_synonym ref = nat

type_synonym store = "ref \<Rightarrow> individual"

definition cxSet :: "ref \<Rightarrow> ref \<Rightarrow> store \<Rightarrow> (ref \<times> ref) \<times> store" where
  "cxSet ind1 ind2 s =
     (let temp = s ind1;
          s1 = s(ind1 := set_iand (s ind1) (s ind2));
          s2 = s1(ind2 := set_ixor (s1 ind2) temp)
      in ((ind1, ind2), s2))"

section \<open>Mutation\<close>

text \<open>\<^verbatim>\<open>mutSet\<close> works on one object; its contents and the generator state are passed
  through. The \<^verbatim>\<open>else\<close> belongs to the outer test of the coin.\<close>

definition mutSet :: "'g rng \<Rightarrow> individual \<Rightarrow> 'g \<Rightarrow> py_error + (individual \<times> 'g)" where
  "mutSet R individual g =
     (let (u, g1) = rng_random R g
      in if u < 0.5 then
           (if length individual > 0 then
              (case random_choice R (sort individual) g1 of
                 Inl e \<Rightarrow> Inl e
               | Inr (victim, g2) \<Rightarrow>
                   (case set_remove individual victim of
                      Inl e \<Rightarrow> Inl e
                    | Inr individual' \<Rightarrow> Inr (individual', g2)))
            else Inr (individual, g1))
         else
           (case random_randrange R NBR_ITEMS g1 of
              Inl e \<Rightarrow> Inl e
            | Inr (k, g2) \<Rightarrow> Inr (set_add individual k, g2)))"

section \<open>The Pareto archive\<close>

text \<open>An evaluated individual: the id-set with its objective vector.\<close>

type_synonym evaluated = "individual \<times> objvec"

text \<open>Modelled from the spec: the hall of fame \<^verbatim>\<open>tools.ParetoFront\<close> is library code,
  of which the source file holds only the construction and the hand-over to the evolution
  loop. Section 4.6: for each candidate, if it is dominated by any current archive member,
  discard it; otherwise remove from the archive every member the candidate dominates, then
  insert the candidate, unless an archive member with an equal objective vector already
  exists.\<close>

definition ParetoFront_update1 :: "evaluated list \<Rightarrow> evaluated \<Rightarrow> evaluated list" where
  "ParetoFront_update1 archive candidate =
     (if \<exists>m \<in> set archive. dominates (snd m) (snd candidate) then archive
      else (let kept = filter (\<lambda>m. \<not> dominates (snd candidate) (snd m)) archive
            in if \<exists>m \<in> set kept. snd m = snd candidate then kept
               else kept @ [candidate]))"

definition ParetoFront_update :: "evaluated list \<Rightarrow> evaluated list \<Rightarrow> evaluated list" where
  "ParetoFront_update archive candidates = foldl ParetoFront_update1 archive candidates"

text \<open>The archive invariant: no member dominates another.\<close>

definition nondominated :: "evaluated list \<Rightarrow> bool" where
  "nondominated archive =
     (\<forall>a \<in> set archive. \<forall>b \<in> set archive. \<not> dominates (snd a) (snd b))"

section \<open>Statistics\<close>

record generation_record =
  gen :: nat
  avg :: objvec
  std :: objvec
  min_stat :: objvec
  max_stat :: objvec

definition mean :: "real list \<Rightarrow> real" where
  "mean xs = sum_list xs / real (length xs)"

definition population_std :: "real list \<Rightarrow> real" where
  "population_std xs = sqrt (sum_list (map (\<lambda>x. (x - mean xs)\<^sup>2) xs) / real (length xs))"

text \<open>Modelled from the spec: \<^verbatim>\<open>tools.Statistics\<close> and the numpy reductions registered
  on it are library code. Section 4.7: per objective dimension independently, the
  arithmetic mean, the population standard deviation (denominator the population size),
  the minimum and the maximum across the population's objective vectors. The spec gives
  no record for an empty population; the model fails there.\<close>

definition Statistics_compile :: "nat \<Rightarrow> objvec list \<Rightarrow> py_error + generation_record" where
  "Statistics_compile g fits =
     (if fits = [] then Inl ValueError
      else Inr \<lparr> gen = g,
                 avg = (mean (map fst fits), mean (map snd fits)),
                 std = (population_std (map fst fits), population_std (map snd fits)),
                 min_stat = (Min (set (map fst fits)), Min (set (map snd fits))),
                 max_stat = (Max (set (map fst fits)), Max (set (map snd fits))) \<rparr>)"

section \<open>The evolution loop\<close>

fun evaluate_all :: "catalog \<Rightarrow> individual list \<Rightarrow> py_error + evaluated list" where
  "evaluate_all items [] = Inr []"
| "evaluate_all items (ind # rest) =
     (case evalKnapsack items ind of
        Inl e \<Rightarrow> Inl e
      | Inr fit \<Rightarrow>
          (case evaluate_all items rest of
             Inl e \<Rightarrow> Inl e
           | Inr evs \<Rightarrow> Inr ((ind, fit) # evs)))"

text \<open>Modelled from the spec: \<^verbatim>\<open>algorithms.eaMuPlusLambda\<close> is library code; the source
  file only calls it. Section 4.5: Init evaluates the initial population, seeds the
  archive and records the statistics of generation 0; each of the NGEN generation steps
  produces the next population (offspring, their evaluation and the selection, steps a
  to c, are the parameter \<open>next_population\<close> here), updates the archive with it and
  appends one generation record.\<close>

fun generation_steps ::
  "(evaluated list \<Rightarrow> 'g \<Rightarrow> evaluated list \<times> 'g) \<Rightarrow> nat \<Rightarrow> nat \<Rightarrow> evaluated list \<Rightarrow>
   evaluated list \<Rightarrow> generation_record list \<Rightarrow> 'g \<Rightarrow>
   py_error + (evaluated list \<times> evaluated list \<times> generation_record list \<times> 'g)" where
  "generation_steps next_population 0 g pop hof logbook rs = Inr (pop, hof, logbook, rs)"
| "generation_steps next_population (Suc n) g pop hof logbook rs =
     (let (pop', rs') = next_population pop rs;
          hof' = ParetoFront_update hof pop'
      in case Statistics_compile g (map snd pop') of
           Inl e \<Rightarrow> Inl e
         | Inr r \<Rightarrow> generation_steps next_population n (Suc g) pop' hof' (logbook @ [r]) rs')"

definition eaMuPlusLambda ::
  "(evaluated list \<Rightarrow> 'g \<Rightarrow> evaluated list \<times> 'g) \<Rightarrow> catalog \<Rightarrow> individual list \<Rightarrow> int \<Rightarrow> 'g \<Rightarrow>
   py_error + (evaluated list \<times> evaluated list \<times> generation_record list \<times> 'g)" where
  "eaMuPlusLambda next_population items population ngen rs =
     (case evaluate_all items population of
        Inl e \<Rightarrow> Inl e
      | Inr pop \<Rightarrow>
          (let hof = ParetoFront_update [] pop
           in case Statistics_compile 0 (map snd pop) of
                Inl e \<Rightarrow> Inl e
              | Inr r \<Rightarrow> generation_steps next_population (nat ngen) 1 pop hof [r] rs))"

section \<open>The initial population\<close>

text \<open>Modelled from the spec: \<^verbatim>\<open>tools.initRepeat\<close> is library code; the source file
  registers it for individuals and for the population. Section 4.5, Init: a population
  of MU individuals, each built from IND_INIT_SIZE item ids drawn with replacement into a
  set, duplicates collapsing.\<close>

fun initRepeat :: "('g \<Rightarrow> py_error + ('a \<times> 'g)) \<Rightarrow> nat \<Rightarrow> 'g \<Rightarrow> py_error + ('a list \<times> 'g)" where
  "initRepeat func 0 g = Inr ([], g)"
| "initRepeat func (Suc n) g =
     (case func g of
        Inl e \<Rightarrow> Inl e
      | Inr (x, g1) \<Rightarrow>
          (case initRepeat func n g1 of
             Inl e \<Rightarrow> Inl e
           | Inr (xs, g2) \<Rightarrow> Inr (x # xs, g2)))"

definition toolbox_attr_item :: "'g rng \<Rightarrow> 'g \<Rightarrow> py_error + (nat \<times> 'g)" where
  "toolbox_attr_item R g = random_randrange R NBR_ITEMS g"

definition toolbox_individual :: "'g rng \<Rightarrow> 'g \<Rightarrow> py_error + (individual \<times> 'g)" where
  "toolbox_individual R g =
     (case initRepeat (toolbox_attr_item R) IND_INIT_SIZE g of
        Inl e \<Rightarrow> Inl e
      | Inr (drawn, g') \<Rightarrow> Inr (foldl set_add [] drawn, g'))"

definition toolbox_population :: "'g rng \<Rightarrow> int \<Rightarrow> 'g \<Rightarrow> py_error + (individual list \<times> 'g)" where
  "toolbox_population R n g = initRepeat (toolbox_individual R) (nat n) g"

section \<open>The run\<close>

text \<open>The parameters that \<^verbatim>\<open>main\<close> binds to constants before the run. The body of
  \<^verbatim>\<open>main\<close> is modelled as a function of them; \<open>main_config\<close> holds the values of
  the source.\<close>

record config =
  NGEN :: int
  MU :: int
  LAMBDA :: int
  CXPB :: real
  MUTPB :: real

definition main_config :: config where
  "main_config = \<lparr> NGEN = 100, MU = 50, LAMBDA = 100, CXPB = 0.7, MUTPB = 0.2 \<rparr>"

text \<open>The validity of a configuration, as section 7 of the specification words it.\<close>

definition config_valid :: "config \<Rightarrow> bool" where
  "config_valid cfg =
     (0 < MU cfg \<and> 0 < LAMBDA cfg \<and> 0 < NGEN cfg \<and> CXPB cfg + MUTPB cfg \<le> 1)"

datatype param_value = IntParam int | FloatParam real

definition log_params :: "config \<Rightarrow> (string \<times> param_value) list" where
  "log_params cfg =
     [(''NGEN'', IntParam (NGEN cfg)), (''MU'', IntParam (MU cfg)),
      (''LAMBDA'', IntParam (LAMBDA cfg)), (''CXPB'', FloatParam (CXPB cfg)),
      (''MUTPB'', FloatParam (MUTPB cfg))]"

text \<open>The statements of \<^verbatim>\<open>main\<close> up to the call of the evolution loop: the generator
  is seeded with 64, the five parameters are logged, the initial population is built.\<close>

definition main_setup ::
  "'g rng \<Rightarrow> config \<Rightarrow> py_error + ((string \<times> param_value) list \<times> individual list \<times> 'g)" where
  "main_setup R cfg =
     (let g0 = rng_seed R 64;
          params = log_params cfg
      in case toolbox_population R (MU cfg) g0 of
           Inl e \<Rightarrow> Inl e
         | Inr (pop, g1) \<Rightarrow> Inr (params, pop, g1))"

text \<open>Indexing a Python list with an integer: a negative index counts from the end.\<close>

definition list_getitem :: "'a list \<Rightarrow> int \<Rightarrow> py_error + 'a" where
  "list_getitem xs i =
     (if 0 \<le> i \<and> i < int (length xs) then Inr (xs ! nat i)
      else if i < 0 \<and> - i \<le> int (length xs) then Inr (xs ! nat (int (length xs) + i))
      else Inl IndexError)"

record main_result =
  params :: "(string \<times> param_value) list"
  metrics :: "(string \<times> real) list"
  plotted :: "nat list \<times> objvec list"

definition main ::
  "'g rng \<Rightarrow> catalog \<Rightarrow> (evaluated list \<Rightarrow> 'g \<Rightarrow> evaluated list \<times> 'g) \<Rightarrow> config \<Rightarrow>
   py_error + main_result" where
  "main R items next_population cfg =
     (case main_setup R cfg of
        Inl e \<Rightarrow> Inl e
      | Inr (ps, pop, g1) \<Rightarrow>
          (case eaMuPlusLambda next_population items pop (NGEN cfg) g1 of
             Inl e \<Rightarrow> Inl e
           | Inr (pop', hof, logbook, g2) \<Rightarrow>
               (let gens = map gen logbook;
                    maxs = map max_stat logbook
                in case list_getitem maxs (NGEN cfg) of
                     Inl e \<Rightarrow> Inl e
                   | Inr m \<Rightarrow>
                       Inr \<lparr> params = ps,
                             metrics = [(''max1'', fst m), (''max2'', snd m)],
                             plotted = (gens, maxs) \<rparr>)))"

section \<open>Fixtures for the concrete evaluations\<close>

text \<open>A catalog of twenty items of weight 10 and value 50; six of them weigh 60.\<close>

definition heavy_catalog :: catalog where
  "heavy_catalog = (\<lambda>i. if i < NBR_ITEMS then Some (10, 50) else None)"

text \<open>Three candidates for the archive: the second is dominated by the first, the third
  dominates the first.\<close>

definition sample_candidates :: "evaluated list" where
  "sample_candidates = [([0], (5, 10)), ([1], (6, 5)), ([2], (3, 12))]"

text \<open>A stand-in for offspring production and selection that keeps the population.\<close>

definition keep_population :: "evaluated list \<Rightarrow> nat list \<Rightarrow> evaluated list \<times> nat list" where
  "keep_population pop g = (pop, g)"

text \<open>A store with {1, 2, 3} at reference 0 and {2, 3, 4} at reference 1.\<close>

definition parents_store :: store where
  "parents_store = (\<lambda>r. [])(0 := [1, 2, 3], 1 := [2, 3, 4])"

section \<open>Properties of the evaluator\<close>

lemma directions_eq: "directions = (Minimize, Maximize)"
  by (simp add: directions_def direction_of_def Fitness_weights_def)

lemma dominates_iff:
  "dominates x y \<longleftrightarrow> (fst x \<le> fst y \<and> snd y \<le> snd x) \<and> (fst x < fst y \<or> snd y < snd x)"
  by (simp add: dominates_def directions_eq at_least_as_good_def strictly_better_def)

lemma evalKnapsack_loop_sums:
  "set individual \<subseteq> dom items \<Longrightarrow>
   evalKnapsack_loop items individual (weight, val) =
     Inr (weight + summed_weight items individual, val + summed_value items individual)"
proof (induction individual arbitrary: weight val)
  case Nil
  then show ?case by (simp add: summed_weight_def summed_value_def)
next
  case (Cons item rest)
  from Cons.prems obtain w v where wv: "items item = Some (w, v)"
    by fastforce
  from Cons.prems have rest: "set rest \<subseteq> dom items"
    by simp
  show ?case
    using Cons.IH [OF rest] wv
    by (simp add: summed_weight_def summed_value_def add.assoc)
qed

lemma evalKnapsack_in_catalog:
  "set individual \<subseteq> dom items \<Longrightarrow>
   evalKnapsack items individual =
     (if length individual > MAX_ITEM \<or> summed_weight items individual > MAX_WEIGHT
      then Inr (10000, 0)
      else Inr (summed_weight items individual, summed_value items individual))"
  by (simp add: evalKnapsack_def evalKnapsack_loop_sums)

text \<open>C1. For an individual made of catalog ids whose item count exceeds MAX_ITEM or
  whose summed catalog weight exceeds MAX_WEIGHT, \<^verbatim>\<open>evalKnapsack\<close> returns the
  sentinel (10000, 0); the sentinel is dominated by the vector (0, 0) of the empty
  individual (weight minimised, value maximised); and the empty individual evaluates to
  the feasible vector (0, 0).\<close>

theorem evalKnapsack_penalty:
  assumes "set individual \<subseteq> dom items"
  shows "(length individual > MAX_ITEM \<or> summed_weight items individual > MAX_WEIGHT
            \<longrightarrow> evalKnapsack items individual = Inr (10000, 0))
         \<and> dominates (0, 0) (10000, 0)
         \<and> evalKnapsack items [] = Inr (0, 0)"
proof -
  have empty: "evalKnapsack items [] = Inr (0, 0)"
    by (simp add: evalKnapsack_def MAX_ITEM_def MAX_WEIGHT_def)
  have dom: "dominates (0, 0) (10000, 0)"
    by (simp add: dominates_iff)
  from assms show ?thesis
    using empty dom by (simp add: evalKnapsack_in_catalog)
qed

theorem evalKnapsack_penalty_witness:
  "set [0, 1, 2, 3, 4, 5] \<subseteq> dom heavy_catalog
   \<and> summed_weight heavy_catalog [0, 1, 2, 3, 4, 5] > MAX_WEIGHT
   \<and> evalKnapsack heavy_catalog [0, 1, 2, 3, 4, 5] = Inr (10000, 0)
   \<and> dominates (0, 0) (10000, 0)
   \<and> evalKnapsack heavy_catalog [] = Inr (0, 0)"
proof -
  have h: "set [0, 1, 2, 3, 4, 5] \<subseteq> dom heavy_catalog"
    by (simp add: heavy_catalog_def NBR_ITEMS_def dom_def)
  have w: "summed_weight heavy_catalog [0, 1, 2, 3, 4, 5] > MAX_WEIGHT"
    by (simp add: summed_weight_def heavy_catalog_def NBR_ITEMS_def MAX_WEIGHT_def)
  show ?thesis
    using h w evalKnapsack_penalty [OF h] by simp
qed

text \<open>C2. Dominance is a strict partial order on objective vectors: it is
  irreflexive, asymmetric and transitive.\<close>

theorem dominates_strict_partial_order:
  "\<not> dominates x x
   \<and> (dominates x y \<longrightarrow> \<not> dominates y x)
   \<and> (dominates x y \<and> dominates y z \<longrightarrow> dominates x z)"
  unfolding dominates_iff by auto

theorem dominates_strict_partial_order_witness:
  "dominates (1, 5) (2, 4) \<and> dominates (2, 4) (3, 3)
   \<and> \<not> dominates (1, 5) (1, 5) \<and> \<not> dominates (2, 4) (1, 5) \<and> dominates (1, 5) (3, 3)"
proof -
  have a: "dominates (1, 5) (2, 4)" by (simp add: dominates_iff)
  have b: "dominates (2, 4) (3, 3)" by (simp add: dominates_iff)
  show ?thesis
    using a b dominates_strict_partial_order [of "(1, 5)" "(2, 4)" "(3, 3)"] by blast
qed

section \<open>Properties of the set operations and the generator\<close>

lemma rng_ok_replay: "rng_ok replay_rng"
  by (simp add: rng_ok_def replay_rng_def)

lemma set_set_iand: "set (set_iand xs ys) = set xs \<inter> set ys"
  by (auto simp: set_iand_def)

lemma set_set_ixor: "set (set_ixor xs ys) = (set xs - set ys) \<union> (set ys - set xs)"
  by (auto simp: set_ixor_def)

lemma set_set_add: "set (set_add xs x) = insert x (set xs)"
  by (auto simp: set_add_def)

lemma distinct_set_iand: "distinct xs \<Longrightarrow> distinct (set_iand xs ys)"
  by (simp add: set_iand_def)

lemma distinct_set_ixor: "distinct xs \<Longrightarrow> distinct ys \<Longrightarrow> distinct (set_ixor xs ys)"
  by (auto simp: set_ixor_def)

lemma distinct_set_add: "distinct xs \<Longrightarrow> distinct (set_add xs x)"
  by (simp add: set_add_def)

section \<open>Properties of crossover\<close>

lemma cxSet_distinct_refs:
  "ind1 \<noteq> ind2 \<Longrightarrow>
   cxSet ind1 ind2 s =
     ((ind1, ind2), s(ind1 := set_iand (s ind1) (s ind2), ind2 := set_ixor (s ind2) (s ind1)))"
  by (simp add: cxSet_def Let_def)

lemma cxSet_same_ref:
  "cxSet r r s = ((r, r), s(r := []))"
  by (simp add: cxSet_def Let_def set_iand_def set_ixor_def)

text \<open>C4. For all id-sets a and b, held in the two set objects of a mating pair,
  crossover replaces a with the intersection of a and b and replaces b with the
  symmetric difference of the original a and b, and returns the two objects; both
  children are subsets of the union of the two original parents.\<close>

theorem cxSet_children:
  assumes "ind1 \<noteq> ind2"
  shows "fst (cxSet ind1 ind2 s) = (ind1, ind2)
         \<and> set (snd (cxSet ind1 ind2 s) ind1) = set (s ind1) \<inter> set (s ind2)
         \<and> set (snd (cxSet ind1 ind2 s) ind2) =
             (set (s ind1) - set (s ind2)) \<union> (set (s ind2) - set (s ind1))
         \<and> set (snd (cxSet ind1 ind2 s) ind1) \<subseteq> set (s ind1) \<union> set (s ind2)
         \<and> set (snd (cxSet ind1 ind2 s) ind2) \<subseteq> set (s ind1) \<union> set (s ind2)"
  using assms by (auto simp: cxSet_distinct_refs set_set_iand set_set_ixor)

theorem cxSet_children_witness:
  "(0::nat) \<noteq> 1
   \<and> fst (cxSet 0 1 parents_store) = (0, 1)
   \<and> set (snd (cxSet 0 1 parents_store) 0) = {2, 3}
   \<and> set (snd (cxSet 0 1 parents_store) 1) = {1, 4}"
proof -
  have ne: "(0::nat) \<noteq> 1" by simp
  have p: "parents_store 0 = [1, 2, 3]" "parents_store 1 = [2, 3, 4]"
    by (simp_all add: parents_store_def)
  show ?thesis
    using ne p cxSet_children [OF ne, of parents_store] by auto
qed

text \<open>C10. For all id-sets a and b, held in the two set objects of a mating pair, the
  two children of crossover are disjoint and their union is the union of the original
  parents; hence |childA| + |childB| = |a \<union> b| \<le> |a| + |b|, and no id of either
  parent is lost from the pair.\<close>

theorem cxSet_partition:
  assumes "ind1 \<noteq> ind2"
  shows "set (snd (cxSet ind1 ind2 s) ind1) \<inter> set (snd (cxSet ind1 ind2 s) ind2) = {}
         \<and> set (snd (cxSet ind1 ind2 s) ind1) \<union> set (snd (cxSet ind1 ind2 s) ind2)
             = set (s ind1) \<union> set (s ind2)
         \<and> card (set (snd (cxSet ind1 ind2 s) ind1)) + card (set (snd (cxSet ind1 ind2 s) ind2))
             = card (set (s ind1) \<union> set (s ind2))
         \<and> card (set (s ind1) \<union> set (s ind2)) \<le> card (set (s ind1)) + card (set (s ind2))"
proof -
  let ?a = "set (snd (cxSet ind1 ind2 s) ind1)" and ?b = "set (snd (cxSet ind1 ind2 s) ind2)"
  have a: "?a = set (s ind1) \<inter> set (s ind2)"
    using assms by (simp add: cxSet_distinct_refs set_set_iand)
  have b: "?b = (set (s ind1) - set (s ind2)) \<union> (set (s ind2) - set (s ind1))"
    using assms by (auto simp: cxSet_distinct_refs set_set_ixor)
  have dis: "?a \<inter> ?b = {}" unfolding a b by blast
  have un: "?a \<union> ?b = set (s ind1) \<union> set (s ind2)" unfolding a b by blast
  have "card (?a \<union> ?b) = card ?a + card ?b"
    by (rule card_Un_disjoint) (simp_all add: dis)
  with un have cards: "card ?a + card ?b = card (set (s ind1) \<union> set (s ind2))" by simp
  show ?thesis using dis un cards card_Un_le by blast
qed

theorem cxSet_partition_witness:
  "(0::nat) \<noteq> 1
   \<and> set (snd (cxSet 0 1 parents_store) 0) \<union> set (snd (cxSet 0 1 parents_store) 1)
       = {1, 2, 3, 4}
   \<and> set (snd (cxSet 0 1 parents_store) 0) \<inter> set (snd (cxSet 0 1 parents_store) 1) = {}
   \<and> card (set (snd (cxSet 0 1 parents_store) 0))
       + card (set (snd (cxSet 0 1 parents_store) 1)) = 4"
proof -
  have ne: "(0::nat) \<noteq> 1" by simp
  have u: "set (parents_store 0) \<union> set (parents_store 1) = {1, 2, 3, 4}"
    by (auto simp: parents_store_def)
  have c: "card {1, 2, 3, 4::nat} = 4" by simp
  show ?thesis
    using ne u c cxSet_partition [OF ne, of parents_store] by simp
qed

lemma cxSet_distinct:
  assumes "distinct (s ind1)" and "distinct (s ind2)"
  shows "distinct (snd (cxSet ind1 ind2 s) ind1) \<and> distinct (snd (cxSet ind1 ind2 s) ind2)"
proof (cases "ind1 = ind2")
  case True
  then show ?thesis by (simp add: cxSet_same_ref)
next
  case False
  with assms show ?thesis
    by (simp add: cxSet_distinct_refs distinct_set_iand distinct_set_ixor)
qed

section \<open>Properties of mutation\<close>

lemma mutSet_add_branch:
  assumes "\<not> fst (rng_random R g) < 1 / 2"
  shows "mutSet R individual g =
           Inr (set_add individual (fst (rng_randbelow R NBR_ITEMS (snd (rng_random R g)))),
                snd (rng_randbelow R NBR_ITEMS (snd (rng_random R g))))"
  using assms
  by (simp add: mutSet_def random_randrange_def NBR_ITEMS_def split_beta)

lemma mutSet_skip_branch:
  assumes "fst (rng_random R g) < 1 / 2"
  shows "mutSet R [] g = Inr ([], snd (rng_random R g))"
  using assms by (simp add: mutSet_def split_beta)

lemma mutSet_remove_branch:
  assumes ok: "rng_ok R" and coin: "fst (rng_random R g) < 1 / 2" and ne: "individual \<noteq> []"
  shows "mutSet R individual g =
           Inr (removeAll (sort individual ! fst (rng_randbelow R (length individual) (snd (rng_random R g)))) individual,
                snd (rng_randbelow R (length individual) (snd (rng_random R g))))
         \<and> sort individual ! fst (rng_randbelow R (length individual) (snd (rng_random R g))) \<in> set individual"
proof -
  let ?g1 = "snd (rng_random R g)"
  let ?i = "fst (rng_randbelow R (length individual) ?g1)"
  from ne have len: "0 < length individual" by simp
  with ok have i: "?i < length individual"
    by (simp add: rng_ok_def)
  then have "sort individual ! ?i \<in> set (sort individual)"
    by (metis length_sort nth_mem)
  then have mem: "sort individual ! ?i \<in> set individual" by simp
  have srt: "sort individual \<noteq> []"
    using ne by (metis length_sort length_0_conv)
  show ?thesis
    using coin ne i mem srt
    by (simp add: mutSet_def random_choice_def set_remove_def split_beta)
qed

lemma sort_same_members:
  assumes "set a = set b" "distinct a" "distinct b"
  shows "sort a = sort (b::nat list)"
proof -
  have "sort a = sorted_list_of_set (set a)"
    using assms(2) by (simp add: sorted_list_of_set_sort_remdups distinct_remdups_id)
  also have "\<dots> = sorted_list_of_set (set b)" using assms(1) by simp
  also have "\<dots> = sort b"
    using assms(3) by (simp add: sorted_list_of_set_sort_remdups distinct_remdups_id)
  finally show ?thesis .
qed

text \<open>C6 (as amended). Mutating an empty individual leaves it empty when the coin
  falls below 0.5 (the remove branch is skipped and nothing is added), and yields an
  individual of cardinality exactly 1 when the coin is 0.5 or more.\<close>

theorem mutSet_empty:
  "(fst (rng_random R g) < 1 / 2 \<longrightarrow> mutSet R [] g = Inr ([], snd (rng_random R g)))
   \<and> (\<not> fst (rng_random R g) < 1 / 2 \<longrightarrow>
        (\<exists>k g'. mutSet R [] g = Inr ([k], g') \<and> card (set [k]) = 1))"
  by (simp add: mutSet_add_branch mutSet_skip_branch set_add_def)

theorem mutSet_empty_witness:
  "fst (rng_random replay_rng [250]) < 1 / 2
   \<and> mutSet replay_rng [] [250] = Inr ([], [])
   \<and> \<not> fst (rng_random replay_rng [750, 7]) < 1 / 2
   \<and> (\<exists>k g'. mutSet replay_rng [] [750, 7] = Inr ([k], g') \<and> card (set [k]) = 1)"
proof -
  have a: "fst (rng_random replay_rng [250]) < 1 / 2"
    by (simp add: replay_rng_def replay_raw_def)
  have b: "\<not> fst (rng_random replay_rng [750, 7]) < 1 / 2"
    by (simp add: replay_rng_def replay_raw_def)
  have c: "snd (rng_random replay_rng [250]) = []"
    by (simp add: replay_rng_def)
  show ?thesis
    using a b c mutSet_empty [of replay_rng "[250]"] mutSet_empty [of replay_rng "[750, 7]"]
    by simp
qed

text \<open>C6 as stated fails for a coin of 0.25: the empty individual stays empty.\<close>

theorem mutSet_empty_counterexample:
  "mutSet replay_rng [] [250] = Inr ([], []) \<and> card (set ([]::nat list)) \<noteq> 1"
  by (simp add: mutSet_def replay_rng_def replay_raw_def)

text \<open>C8. Two individuals with the same members, whatever their iteration order,
  mutated from the same generator state, end with the same members and the same
  generator state: the victim is chosen from the sorted sequence.\<close>

theorem mutSet_same_members:
  assumes "rng_ok R" and "set a = set b" and "distinct a" and "distinct b"
  shows "\<exists>a' b' g'. mutSet R a g = Inr (a', g') \<and> mutSet R b g = Inr (b', g') \<and> set a' = set b'"
proof (cases "fst (rng_random R g) < 1 / 2")
  case False
  then show ?thesis
    using assms(2) by (simp add: mutSet_add_branch set_set_add)
next
  case coin: True
  show ?thesis
  proof (cases "a = []")
    case True
    with assms(2) have "b = []" by simp
    with True coin show ?thesis by (simp add: mutSet_skip_branch)
  next
    case False
    with assms(2) have bne: "b \<noteq> []" by auto
    have len: "length a = length b"
      using assms(2,3,4) by (metis distinct_card)
    have srt: "sort a = sort b"
      using assms(2,3,4) by (rule sort_same_members)
    show ?thesis
      using mutSet_remove_branch [OF assms(1) coin False, of ]
            mutSet_remove_branch [OF assms(1) coin bne] len srt assms(2)
      by simp
  qed
qed

theorem mutSet_same_members_witness:
  "rng_ok replay_rng \<and> set [3, 1, 2] = set [2, 3, 1::nat]
   \<and> distinct [3, 1, 2::nat] \<and> distinct [2, 3, 1::nat]
   \<and> (\<exists>a' b' g'. mutSet replay_rng [3, 1, 2] [250, 1] = Inr (a', g')
          \<and> mutSet replay_rng [2, 3, 1] [250, 1] = Inr (b', g') \<and> set a' = set b')"
proof -
  have ok: "rng_ok replay_rng" by (rule rng_ok_replay)
  have s: "set [3, 1, 2] = set [2, 3, 1::nat]" by auto
  have d1: "distinct [3, 1, 2::nat]" and d2: "distinct [2, 3, 1::nat]" by simp_all
  show ?thesis
    using ok s d1 d2 mutSet_same_members [OF ok s d1 d2, of "[250, 1]"] by blast
qed

lemma mutSet_concrete_remove:
  "mutSet replay_rng [3, 1, 2] [250, 1] = Inr ([3, 1], [])
   \<and> mutSet replay_rng [2, 3, 1] [250, 1] = Inr ([3, 1], [])"
  by (simp add: mutSet_def replay_rng_def replay_raw_def random_choice_def set_remove_def)

text \<open>C9. On an individual holding all NBR_ITEMS catalog ids the add branch leaves the
  individual as it is, and on a non-empty individual the remove branch lowers the
  cardinality by exactly one.\<close>

theorem mutSet_cardinality:
  assumes "rng_ok R"
  shows "({..<NBR_ITEMS} \<subseteq> set individual \<and> \<not> fst (rng_random R g) < 1 / 2 \<longrightarrow>
            (\<exists>individual' g'. mutSet R individual g = Inr (individual', g')
               \<and> individual' = individual
               \<and> card (set individual') = card (set individual)))
         \<and> (individual \<noteq> [] \<and> fst (rng_random R g) < 1 / 2 \<longrightarrow>
            (\<exists>individual' g'. mutSet R individual g = Inr (individual', g')
               \<and> card (set individual') + 1 = card (set individual)))"
proof (intro conjI impI)
  assume h: "{..<NBR_ITEMS} \<subseteq> set individual \<and> \<not> fst (rng_random R g) < 1 / 2"
  let ?k = "fst (rng_randbelow R NBR_ITEMS (snd (rng_random R g)))"
  have "?k < NBR_ITEMS"
    using assms by (simp add: rng_ok_def NBR_ITEMS_def)
  with h have "?k \<in> set individual" by auto
  then have "set_add individual ?k = individual" by (simp add: set_add_def)
  with h show "\<exists>individual' g'. mutSet R individual g = Inr (individual', g')
               \<and> individual' = individual
               \<and> card (set individual') = card (set individual)"
    by (simp add: mutSet_add_branch)
next
  assume h: "individual \<noteq> [] \<and> fst (rng_random R g) < 1 / 2"
  let ?v = "sort individual ! fst (rng_randbelow R (length individual) (snd (rng_random R g)))"
  from h have ne: "individual \<noteq> []" and coin: "fst (rng_random R g) < 1 / 2" by simp_all
  note r = mutSet_remove_branch [OF assms coin ne]
  from r have mem: "?v \<in> set individual" by simp
  have "card (set (removeAll ?v individual)) + 1 = card (set individual)"
    using mem by (simp add: card_Diff_singleton) (metis List.finite_set Suc_pred card_gt_0_iff empty_iff)
  with r show "\<exists>individual' g'. mutSet R individual g = Inr (individual', g')
               \<and> card (set individual') + 1 = card (set individual)"
    by simp
qed

theorem mutSet_cardinality_witness:
  "rng_ok replay_rng
   \<and> {..<NBR_ITEMS} \<subseteq> set [0..<20] \<and> \<not> fst (rng_random replay_rng [750, 7]) < 1 / 2
   \<and> (\<exists>g'. mutSet replay_rng [0..<20] [750, 7] = Inr ([0..<20], g'))
   \<and> [4, 9] \<noteq> ([]::nat list) \<and> fst (rng_random replay_rng [250, 1]) < 1 / 2
   \<and> (\<exists>individual' g'. mutSet replay_rng [4, 9] [250, 1] = Inr (individual', g')
          \<and> card (set individual') + 1 = card (set [4, 9::nat]))"
proof -
  have ok: "rng_ok replay_rng" by (rule rng_ok_replay)
  have full: "{..<NBR_ITEMS} \<subseteq> set [0..<20]"
    by (simp add: NBR_ITEMS_def lessThan_atLeast0)
  have add: "\<not> fst (rng_random replay_rng [750, 7]) < 1 / 2"
    by (simp add: replay_rng_def replay_raw_def)
  have rem: "fst (rng_random replay_rng [250, 1]) < 1 / 2"
    by (simp add: replay_rng_def replay_raw_def)
  have ne: "[4, 9] \<noteq> ([]::nat list)" by simp
  show ?thesis
    using ok full add rem ne
      mutSet_cardinality [OF ok, of "[0..<20]" "[750, 7]"]
      mutSet_cardinality [OF ok, of "[4, 9]" "[250, 1]"]
    by blast
qed

lemma mutSet_distinct:
  assumes "distinct individual" and "mutSet R individual g = Inr (individual', g')"
  shows "distinct individual'"
  using assms
  by (auto simp: mutSet_def random_choice_def random_randrange_def set_remove_def set_add_def
      split_beta Let_def distinct_removeAll split: if_splits)

section \<open>Properties of the Pareto archive\<close>

lemma dominates_irrefl: "\<not> dominates x x"
  by (simp add: dominates_iff)

lemma dominates_trans: "dominates x y \<Longrightarrow> dominates y z \<Longrightarrow> dominates x z"
  by (auto simp: dominates_iff)

lemma ParetoFront_update1_mem:
  "m \<in> set (ParetoFront_update1 archive c) \<longleftrightarrow>
     (if \<exists>a \<in> set archive. dominates (snd a) (snd c) then m \<in> set archive
      else (m \<in> set archive \<and> \<not> dominates (snd c) (snd m)) \<or>
           (m = c \<and> \<not> (\<exists>t \<in> set archive. \<not> dominates (snd c) (snd t) \<and> snd t = snd c)))"
  unfolding ParetoFront_update1_def Let_def
  by (simp del: split_paired_All split_paired_Ex) blast

lemma ParetoFront_update1_set:
  "set (ParetoFront_update1 archive c) =
     (if \<exists>m \<in> set archive. dominates (snd m) (snd c) then set archive
      else {m \<in> set archive. \<not> dominates (snd c) (snd m)} \<union>
           (if \<exists>m \<in> set archive. \<not> dominates (snd c) (snd m) \<and> snd m = snd c then {} else {c}))"
proof (rule set_eqI)
  fix m
  show "m \<in> set (ParetoFront_update1 archive c) \<longleftrightarrow>
        m \<in> (if \<exists>m \<in> set archive. dominates (snd m) (snd c) then set archive
      else {m \<in> set archive. \<not> dominates (snd c) (snd m)} \<union>
           (if \<exists>m \<in> set archive. \<not> dominates (snd c) (snd m) \<and> snd m = snd c then {} else {c}))"
    unfolding ParetoFront_update1_mem
    by (simp del: split_paired_All split_paired_Ex) blast
qed

lemma nondominated_update1:
  assumes "nondominated archive"
  shows "nondominated (ParetoFront_update1 archive c)"
proof (cases "\<exists>a \<in> set archive. dominates (snd a) (snd c)")
  case True
  then have "set (ParetoFront_update1 archive c) = set archive"
    by (simp only: ParetoFront_update1_set if_True)
  with assms show ?thesis by (simp add: nondominated_def)
next
  case False
  show ?thesis
    unfolding nondominated_def
  proof (intro ballI)
    fix a b
    assume "a \<in> set (ParetoFront_update1 archive c)" "b \<in> set (ParetoFront_update1 archive c)"
    then have a: "(a \<in> set archive \<and> \<not> dominates (snd c) (snd a)) \<or> a = c"
      and b: "(b \<in> set archive \<and> \<not> dominates (snd c) (snd b)) \<or> b = c"
      using False unfolding ParetoFront_update1_mem by (simp_all only: if_False) blast+
    show "\<not> dominates (snd a) (snd b)"
      using a b False assms dominates_irrefl [of "snd c"]
      unfolding nondominated_def by blast
  qed
qed

lemma dominated_update1:
  assumes "\<exists>m \<in> set archive. dominates (snd m) x"
  shows "\<exists>m \<in> set (ParetoFront_update1 archive c). dominates (snd m) x"
proof -
  from assms obtain m where m: "m \<in> set archive" "dominates (snd m) x" by blast
  show ?thesis
  proof (cases "\<exists>a \<in> set archive. dominates (snd a) (snd c)")
    case True
    then have "set (ParetoFront_update1 archive c) = set archive"
      by (simp only: ParetoFront_update1_set if_True)
    then show ?thesis using assms by simp
  next
    case nd: False
    show ?thesis
    proof (cases "dominates (snd c) (snd m)")
      case False
      with m(1) nd have "m \<in> set (ParetoFront_update1 archive c)"
        unfolding ParetoFront_update1_mem by (simp only: if_False) blast
      with m(2) show ?thesis by blast
    next
      case True
      then have cx: "dominates (snd c) x" using m(2) by (rule dominates_trans)
      show ?thesis
      proof (cases "\<exists>t \<in> set archive. \<not> dominates (snd c) (snd t) \<and> snd t = snd c")
        case True
        then obtain t where t: "t \<in> set archive" "\<not> dominates (snd c) (snd t)" "snd t = snd c"
          by blast
        with nd have "t \<in> set (ParetoFront_update1 archive c)"
          unfolding ParetoFront_update1_mem by (simp only: if_False) blast
        with cx t(3) show ?thesis by metis
      next
        case False
        with nd have "c \<in> set (ParetoFront_update1 archive c)"
          unfolding ParetoFront_update1_mem by (simp only: if_False) blast
        with cx show ?thesis by blast
      qed
    qed
  qed
qed

lemma nondominated_update:
  "nondominated archive \<Longrightarrow> nondominated (ParetoFront_update archive cs)"
  unfolding ParetoFront_update_def
  by (induction cs arbitrary: archive) (simp_all add: nondominated_update1)

lemma dominated_update:
  "\<exists>m \<in> set archive. dominates (snd m) x \<Longrightarrow>
   \<exists>m \<in> set (ParetoFront_update archive cs). dominates (snd m) x"
  unfolding ParetoFront_update_def
proof (induction cs arbitrary: archive)
  case Nil
  then show ?case by simp
next
  case (Cons c cs)
  from Cons.prems have "\<exists>m \<in> set (ParetoFront_update1 archive c). dominates (snd m) x"
    by (rule dominated_update1)
  then show ?case using Cons.IH by simp
qed

lemma ParetoFront_update_append:
  "ParetoFront_update archive (pre @ c # post) =
     ParetoFront_update (ParetoFront_update1 (ParetoFront_update archive pre) c) post"
  by (simp add: ParetoFront_update_def)

lemma dominated_absent:
  assumes "nondominated archive" and "\<exists>m \<in> set archive. dominates (snd m) x"
  shows "\<forall>m \<in> set archive. snd m \<noteq> x"
  using assms unfolding nondominated_def by metis

text \<open>C3. The archive update discards each candidate dominated by a current member,
  otherwise removes every member the candidate dominates and inserts the candidate
  unless a member with an equal objective vector exists; hence, from an archive in which
  no member dominates another (the empty one in particular), after every update no two
  members dominate each other, and no candidate that was dominated when its turn came is
  present.\<close>

theorem ParetoFront_update_invariant:
  assumes "nondominated archive"
  shows "set (ParetoFront_update archive [c]) =
           (if \<exists>m \<in> set archive. dominates (snd m) (snd c) then set archive
            else {m \<in> set archive. \<not> dominates (snd c) (snd m)} \<union>
                 (if \<exists>m \<in> set archive. \<not> dominates (snd c) (snd m) \<and> snd m = snd c
                  then {} else {c}))
         \<and> nondominated (ParetoFront_update archive candidates)
         \<and> (\<forall>pre d post.
               candidates = pre @ d # post \<and>
               (\<exists>m \<in> set (ParetoFront_update archive pre). dominates (snd m) (snd d))
               \<longrightarrow> (\<forall>m \<in> set (ParetoFront_update archive candidates). snd m \<noteq> snd d))"
proof (intro conjI allI impI)
  show "set (ParetoFront_update archive [c]) =
           (if \<exists>m \<in> set archive. dominates (snd m) (snd c) then set archive
            else {m \<in> set archive. \<not> dominates (snd c) (snd m)} \<union>
                 (if \<exists>m \<in> set archive. \<not> dominates (snd c) (snd m) \<and> snd m = snd c
                  then {} else {c}))"
    by (simp add: ParetoFront_update_def ParetoFront_update1_set)
next
  show "nondominated (ParetoFront_update archive candidates)"
    using assms by (rule nondominated_update)
next
  fix pre d post
  assume h: "candidates = pre @ d # post \<and>
             (\<exists>m \<in> set (ParetoFront_update archive pre). dominates (snd m) (snd d))"
  let ?A = "ParetoFront_update archive pre"
  from h have "\<exists>m \<in> set (ParetoFront_update1 ?A d). dominates (snd m) (snd d)"
    by (blast intro: dominated_update1)
  then have "\<exists>m \<in> set (ParetoFront_update (ParetoFront_update1 ?A d) post). dominates (snd m) (snd d)"
    by (rule dominated_update)
  then have dom: "\<exists>m \<in> set (ParetoFront_update archive candidates). dominates (snd m) (snd d)"
    using h by (simp add: ParetoFront_update_append)
  have "nondominated (ParetoFront_update archive candidates)"
    using assms by (rule nondominated_update)
  then show "\<forall>m \<in> set (ParetoFront_update archive candidates). snd m \<noteq> snd d"
    using dom by (rule dominated_absent)
qed

lemma nondominated_Nil: "nondominated []"
  by (simp add: nondominated_def)

theorem ParetoFront_update_invariant_witness:
  "nondominated []
   \<and> sample_candidates = [([0], (5, 10))] @ ([1], (6, 5)) # [([2], (3, 12))]
   \<and> ParetoFront_update [] [([0], (5, 10))] = [([0], (5, 10))]
   \<and> dominates (5, 10) (6, 5)
   \<and> ParetoFront_update [] sample_candidates = [([2], (3, 12))]
   \<and> nondominated (ParetoFront_update [] sample_candidates)
   \<and> snd (([2], (3, 12))::evaluated) \<noteq> (6, 5)"
proof -
  have n: "nondominated []" by (rule nondominated_Nil)
  have e: "ParetoFront_update [] sample_candidates = [([2], (3, 12))]"
    by (simp add: ParetoFront_update_def ParetoFront_update1_def sample_candidates_def dominates_iff)
  have p: "ParetoFront_update [] [([0], (5, 10))] = [([0], (5, 10))]"
    by (simp add: ParetoFront_update_def ParetoFront_update1_def dominates_iff)
  have d: "dominates (5, 10) (6, 5)" by (simp add: dominates_iff)
  have s: "sample_candidates = [([0], (5, 10))] @ ([1], (6, 5)) # [([2], (3, 12))]"
    by (simp add: sample_candidates_def)
  note inv = ParetoFront_update_invariant [OF n, of "([0], (5, 10))" sample_candidates]
  from inv have nd: "nondominated (ParetoFront_update [] sample_candidates)" by blast
  from inv have "sample_candidates = [([0], (5, 10))] @ ([1], (6, 5)) # [([2], (3, 12))] \<and>
      (\<exists>m \<in> set (ParetoFront_update [] [([0], (5, 10))]). dominates (snd m) (snd (([1], (6, 5))::evaluated)))
      \<longrightarrow> (\<forall>m \<in> set (ParetoFront_update [] sample_candidates). snd m \<noteq> snd (([1], (6, 5))::evaluated))"
    by blast
  with s p d e have ab: "snd (([2], (3, 12))::evaluated) \<noteq> (6, 5)"
    by simp
  from n e p d s nd ab show ?thesis by blast
qed

section \<open>Properties of the run\<close>

lemma toolbox_attr_item_ok:
  "toolbox_attr_item R g = Inr (rng_randbelow R NBR_ITEMS g)"
  by (simp add: toolbox_attr_item_def random_randrange_def NBR_ITEMS_def)

lemma initRepeat_ok:
  assumes "\<And>g. \<exists>x g'. func g = Inr (x, g') \<and> P x"
  shows "\<exists>xs g'. initRepeat func n g = Inr (xs, g') \<and> length xs = n \<and> (\<forall>x \<in> set xs. P x)"
proof (induction n arbitrary: g)
  case 0
  show ?case by simp
next
  case (Suc n)
  from assms obtain x g1 where x: "func g = Inr (x, g1)" "P x" by blast
  from Suc.IH obtain xs g2 where xs: "initRepeat func n g1 = Inr (xs, g2)" "length xs = n"
    "\<forall>x \<in> set xs. P x" by blast
  from x xs show ?case by simp
qed

lemma set_foldl_set_add: "set (foldl set_add acc xs) = set acc \<union> set xs"
  by (induction xs arbitrary: acc) (auto simp: set_add_def)

lemma toolbox_individual_ok:
  assumes "rng_ok R"
  shows "\<exists>ind g'. toolbox_individual R g = Inr (ind, g') \<and> set ind \<subseteq> {..<NBR_ITEMS}"
proof -
  have "\<And>g. \<exists>k g'. toolbox_attr_item R g = Inr (k, g') \<and> k < NBR_ITEMS"
    using assms by (simp add: toolbox_attr_item_ok rng_ok_def NBR_ITEMS_def prod_eq_iff)
  from initRepeat_ok [of "toolbox_attr_item R" "\<lambda>k. k < NBR_ITEMS", OF this]
  obtain drawn g' where d: "initRepeat (toolbox_attr_item R) IND_INIT_SIZE g = Inr (drawn, g')"
    "\<forall>k \<in> set drawn. k < NBR_ITEMS" by blast
  then show ?thesis
    by (auto simp: toolbox_individual_def set_foldl_set_add)
qed

lemma toolbox_individual_total:
  "\<exists>ind g'. toolbox_individual R g = Inr (ind, g')"
proof -
  have "\<And>g. \<exists>k g'. toolbox_attr_item R g = Inr (k, g') \<and> True"
    by (simp add: toolbox_attr_item_ok prod_eq_iff)
  from initRepeat_ok [of "toolbox_attr_item R" "\<lambda>k. True", OF this]
  obtain drawn g' where d: "initRepeat (toolbox_attr_item R) IND_INIT_SIZE g = Inr (drawn, g')"
    by blast
  then show ?thesis
    by (simp add: toolbox_individual_def)
qed

lemma toolbox_population_total:
  "\<exists>pop g'. toolbox_population R n g = Inr (pop, g') \<and> length pop = nat n"
proof -
  have "\<And>g. \<exists>ind g'. toolbox_individual R g = Inr (ind, g') \<and> True"
    using toolbox_individual_total [of R] by simp
  from initRepeat_ok [of "toolbox_individual R" "\<lambda>k. True", OF this]
  show ?thesis unfolding toolbox_population_def by blast
qed

lemma toolbox_population_ok:
  assumes "rng_ok R"
  shows "\<exists>pop g'. toolbox_population R n g = Inr (pop, g') \<and> length pop = nat n
           \<and> (\<forall>ind \<in> set pop. set ind \<subseteq> {..<NBR_ITEMS})"
  unfolding toolbox_population_def
  by (rule initRepeat_ok) (rule toolbox_individual_ok [OF assms])

lemma evaluate_all_ok:
  assumes "\<forall>ind \<in> set pop. set ind \<subseteq> dom items"
  shows "\<exists>evs. evaluate_all items pop = Inr evs \<and> length evs = length pop"
  using assms
proof (induction pop)
  case Nil
  show ?case by simp
next
  case (Cons ind rest)
  then obtain evs where evs: "evaluate_all items rest = Inr evs" "length evs = length rest"
    by auto
  from Cons.prems have "set ind \<subseteq> dom items" by simp
  then have "\<exists>fit. evalKnapsack items ind = Inr fit"
    by (simp add: evalKnapsack_in_catalog)
  then obtain fit where "evalKnapsack items ind = Inr fit" ..
  with evs show ?case by simp
qed

lemma Statistics_compile_ok:
  "fits \<noteq> [] \<Longrightarrow> \<exists>r. Statistics_compile g fits = Inr r \<and> gen r = g"
  by (simp add: Statistics_compile_def)

lemma generation_steps_ok:
  assumes step: "\<forall>p g. p \<noteq> [] \<longrightarrow> fst (next_population p g) \<noteq> []"
  shows "pop \<noteq> [] \<Longrightarrow>
         \<exists>pop' hof' logbook' rs'.
           generation_steps next_population n g pop hof logbook rs = Inr (pop', hof', logbook', rs')
           \<and> map gen logbook' = map gen logbook @ [g..<g + n]"
proof (induction n arbitrary: g pop hof logbook rs)
  case 0
  show ?case by simp
next
  case (Suc n)
  obtain pop1 rs1 where nx: "next_population pop rs = (pop1, rs1)" by (cases "next_population pop rs")
  with step Suc.prems have ne: "pop1 \<noteq> []" by (metis fst_conv)
  then obtain r where r: "Statistics_compile g (map snd pop1) = Inr r" "gen r = g"
    using Statistics_compile_ok [of "map snd pop1" g] by auto
  from Suc.IH [OF ne, of "Suc g" "ParetoFront_update hof pop1" "logbook @ [r]" rs1]
  obtain pop' hof' logbook' rs' where
    "generation_steps next_population n (Suc g) pop1 (ParetoFront_update hof pop1) (logbook @ [r]) rs1
       = Inr (pop', hof', logbook', rs')"
    "map gen logbook' = map gen (logbook @ [r]) @ [Suc g..<Suc g + n]" by blast
  with nx r show ?case
    by (simp add: upt_conv_Cons)
qed

lemma eaMuPlusLambda_ok:
  assumes step: "\<forall>p g. p \<noteq> [] \<longrightarrow> fst (next_population p g) \<noteq> []"
    and ids: "\<forall>ind \<in> set population. set ind \<subseteq> dom items"
    and ne: "population \<noteq> []"
  shows "\<exists>pop' hof logbook rs'.
           eaMuPlusLambda next_population items population ngen rs = Inr (pop', hof, logbook, rs')
           \<and> map gen logbook = [0..<nat ngen + 1]"
proof -
  from evaluate_all_ok [OF ids] obtain evs where
    evs: "evaluate_all items population = Inr evs" "length evs = length population" by blast
  with ne have evne: "evs \<noteq> []" by auto
  then obtain r where r: "Statistics_compile 0 (map snd evs) = Inr r" "gen r = 0"
    using Statistics_compile_ok [of "map snd evs" 0] by auto
  from generation_steps_ok [OF step evne, of "nat ngen" 1 "ParetoFront_update [] evs" "[r]" rs]
  obtain pop' hof logbook rs' where
    g: "generation_steps next_population (nat ngen) 1 evs (ParetoFront_update [] evs) [r] rs
          = Inr (pop', hof, logbook, rs')"
       "map gen logbook = map gen [r] @ [1..<1 + nat ngen]" by blast
  have "map gen [r] @ [1..<1 + nat ngen] = [0..<nat ngen + 1]"
    using r(2) by (simp add: upt_conv_Cons)
  with g evs r show ?thesis
    by (simp add: eaMuPlusLambda_def)
qed

lemma list_getitem_last:
  assumes "0 \<le> i" and "length xs = nat i + 1"
  shows "list_getitem xs i = Inr (last xs) \<and> xs ! nat i = last xs"
proof -
  from assms have ne: "xs \<noteq> []" by auto
  from assms have "nat i = length xs - 1" by simp
  then have "xs ! nat i = last xs"
    using ne by (simp add: last_conv_nth)
  moreover from assms have "i < int (length xs)" by simp
  ultimately show ?thesis
    using assms(1) by (simp add: list_getitem_def)
qed

text \<open>C5. A run with NGEN generations returns a log of exactly NGEN + 1 generation
  records, indexed 0 to NGEN (101 records for NGEN = 100), and the two metrics reported at
  the end of the run are the components of the \<open>max\<close> field of the record at index NGEN,
  which is the last record.\<close>

theorem main_logbook:
  assumes "rng_ok R" and "{..<NBR_ITEMS} \<subseteq> dom items" and "0 < MU cfg" and "0 \<le> NGEN cfg"
    and "\<forall>p g. p \<noteq> [] \<longrightarrow> fst (next_population p g) \<noteq> []"
  shows "\<exists>ps pop g1 pop' hof logbook g2 res.
           main_setup R cfg = Inr (ps, pop, g1)
           \<and> eaMuPlusLambda next_population items pop (NGEN cfg) g1 = Inr (pop', hof, logbook, g2)
           \<and> length logbook = nat (NGEN cfg) + 1
           \<and> map gen logbook = [0..<nat (NGEN cfg) + 1]
           \<and> logbook ! nat (NGEN cfg) = last logbook
           \<and> main R items next_population cfg = Inr res
           \<and> metrics res = [(''max1'', fst (max_stat (last logbook))),
                             (''max2'', snd (max_stat (last logbook)))]"
proof -
  from toolbox_population_ok [OF assms(1), of "MU cfg" "rng_seed R 64"]
  obtain pop g1 where pop: "toolbox_population R (MU cfg) (rng_seed R 64) = Inr (pop, g1)"
    "length pop = nat (MU cfg)" "\<forall>ind \<in> set pop. set ind \<subseteq> {..<NBR_ITEMS}" by blast
  have ms: "main_setup R cfg = Inr (log_params cfg, pop, g1)"
    using pop(1) by (simp add: main_setup_def)
  from pop(2) assms(3) have ne: "pop \<noteq> []" by auto
  from pop(3) assms(2) have ids: "\<forall>ind \<in> set pop. set ind \<subseteq> dom items" by blast
  from eaMuPlusLambda_ok [OF assms(5) ids ne, of "NGEN cfg" g1]
  obtain pop' hof logbook g2 where
    ea: "eaMuPlusLambda next_population items pop (NGEN cfg) g1 = Inr (pop', hof, logbook, g2)"
    and gens: "map gen logbook = [0..<nat (NGEN cfg) + 1]" by blast
  from gens have len: "length logbook = nat (NGEN cfg) + 1"
    by (metis length_map length_upt diff_zero)
  then have lne: "logbook \<noteq> []" by auto
  from list_getitem_last [OF assms(4), of "map max_stat logbook"] len
  have gi: "list_getitem (map max_stat logbook) (NGEN cfg) = Inr (last (map max_stat logbook))"
    by simp
  have lm: "last (map max_stat logbook) = max_stat (last logbook)"
    using lne by (simp add: last_map)
  from list_getitem_last [OF assms(4) len] have nth: "logbook ! nat (NGEN cfg) = last logbook"
    by simp
  let ?res = "\<lparr> params = log_params cfg,
                 metrics = [(''max1'', fst (max_stat (last logbook))),
                            (''max2'', snd (max_stat (last logbook)))],
                 plotted = (map gen logbook, map max_stat logbook) \<rparr>"
  have m: "main R items next_population cfg = Inr ?res"
    using ms ea gi lm by (simp add: main_def Let_def)
  have "metrics ?res = [(''max1'', fst (max_stat (last logbook))),
                        (''max2'', snd (max_stat (last logbook)))]" by simp
  with ms ea len gens nth m show ?thesis by blast
qed

lemma heavy_catalog_dom: "{..<NBR_ITEMS} \<subseteq> dom heavy_catalog"
  by (auto simp: heavy_catalog_def)

theorem main_logbook_witness:
  "rng_ok replay_rng \<and> {..<NBR_ITEMS} \<subseteq> dom heavy_catalog
   \<and> 0 < MU main_config \<and> 0 \<le> NGEN main_config
   \<and> (\<exists>ps pop g1 pop' hof logbook g2 res.
           main_setup replay_rng main_config = Inr (ps, pop, g1)
           \<and> eaMuPlusLambda keep_population heavy_catalog pop (NGEN main_config) g1
                = Inr (pop', hof, logbook, g2)
           \<and> length logbook = 101
           \<and> map gen logbook = [0..<101]
           \<and> logbook ! 100 = last logbook
           \<and> main replay_rng heavy_catalog keep_population main_config = Inr res
           \<and> metrics res = [(''max1'', fst (max_stat (last logbook))),
                             (''max2'', snd (max_stat (last logbook)))])"
proof -
  have ok: "rng_ok replay_rng" by (simp add: rng_ok_def replay_rng_def)
  have mu: "0 < MU main_config" and ng: "0 \<le> NGEN main_config"
    by (simp_all add: main_config_def)
  have st: "\<forall>p g. p \<noteq> [] \<longrightarrow> fst (keep_population p g) \<noteq> []"
    by (simp add: keep_population_def)
  have n: "nat (NGEN main_config) = 100" by (simp add: main_config_def)
  show ?thesis
    using ok heavy_catalog_dom mu ng
      main_logbook [OF ok heavy_catalog_dom mu ng st] n
    by simp
qed

text \<open>The statements of \<^verbatim>\<open>main\<close> before the evolution loop hold no test of the
  parameters: the values of the source are valid, and the generator is seeded, the five
  parameters are logged and the initial population of MU individuals is built for any
  parameter values.\<close>

lemma main_setup_total:
  "config_valid main_config
   \<and> (\<exists>pop g1. main_setup R cfg = Inr (log_params cfg, pop, g1) \<and> length pop = nat (MU cfg))"
proof -
  have v: "config_valid main_config"
    by (simp add: config_valid_def main_config_def)
  from toolbox_population_total [of R "MU cfg" "rng_seed R 64"]
  obtain pop g1 where "toolbox_population R (MU cfg) (rng_seed R 64) = Inr (pop, g1)"
    "length pop = nat (MU cfg)" by blast
  then have "main_setup R cfg = Inr (log_params cfg, pop, g1) \<and> length pop = nat (MU cfg)"
    by (simp add: main_setup_def)
  with v show ?thesis by blast
qed

end
